theory Spec2Isabelle
  imports Main
begin

section \<open>luainstaller: the public API of the package (\<^verbatim>\<open>source/__init__.py\<close>)\<close>

text \<open>
  Paths are strings, as the API receives them. The exceptions of
  \<^verbatim>\<open>luainstaller.exceptions\<close> are the constructors of \<open>error\<close>; a function that can
  raise returns \<open>error + 'a\<close>, with \<open>Inl\<close> for the exception raised.
\<close>

type_synonym path = string

datatype error =
    ScriptNotFoundError path
  | CircularDependencyError "path list"
  | DynamicRequireError path nat string
  | DependencyLimitExceededError int string
  | ModuleNotFoundError string path
  | CModuleNotSupportedError string path
  | LuastaticNotFoundError
  | CompilerNotFoundError
  | CompilationFailedError string
  | OutputFileNotFoundError path

subsection \<open>The collaborators of \<^verbatim>\<open>build\<close>\<close>

text \<open>
  \<^verbatim>\<open>build\<close> calls \<^verbatim>\<open>pathlib\<close> (\<^verbatim>\<open>Path.exists\<close>, \<^verbatim>\<open>Path.resolve\<close>,
  \<^verbatim>\<open>Path.name\<close>), \<^verbatim>\<open>dependency_analyzer.analyze_dependencies\<close>,
  \<^verbatim>\<open>engine.compile_lua_script\<close> and \<^verbatim>\<open>logger.log_success\<close>. They are the fields of
  \<open>world\<close>: \<^verbatim>\<open>build\<close> is verified for every filesystem, analyzer and engine.
  \<open>path_resolve p\<close> is \<^verbatim>\<open>str(Path(p).resolve())\<close>; two resolved \<^verbatim>\<open>Path\<close> objects are
  equal exactly when these strings are.
\<close>

record world =
  path_exists :: "path \<Rightarrow> bool"
  path_resolve :: "path \<Rightarrow> path"
  path_name :: "path \<Rightarrow> string"
  analyze_dependencies :: "path \<Rightarrow> int \<Rightarrow> error + path list"
  compile_lua_script :: "path \<Rightarrow> path list \<Rightarrow> path option \<Rightarrow> bool \<Rightarrow> error + path"

text \<open>
  The calls \<^verbatim>\<open>build\<close> makes to the analyzer, the engine and the logger, in the order it
  makes them, are recorded in a trace, so that "the engine is never invoked" and "no
  analysis is performed" are statements about the trace.
\<close>

datatype call =
    AnalyzeCall path int
  | CompileCall path "path list" "path option" bool
  | LogSuccessCall string string string

fun is_AnalyzeCall :: "call \<Rightarrow> bool" where
  "is_AnalyzeCall (AnalyzeCall e n) = True"
| "is_AnalyzeCall c = False"

fun is_CompileCall :: "call \<Rightarrow> bool" where
  "is_CompileCall (CompileCall e ds out v) = True"
| "is_CompileCall c = False"

subsection \<open>\<^verbatim>\<open>build\<close>\<close>

text \<open>
  The loop over \<^verbatim>\<open>requires\<close> (lines 151 to 159). Its state is the list
  \<^verbatim>\<open>dependencies\<close> and the set \<^verbatim>\<open>dependency_set\<close>; \<^verbatim>\<open>raise ScriptNotFoundError(req)\<close>
  leaves the loop with \<open>Inl\<close>.
\<close>

fun merge_requires ::
  "world \<Rightarrow> path list \<Rightarrow> path list \<times> path set \<Rightarrow> error + (path list \<times> path set)" where
  "merge_requires w [] (dependencies, dependency_set) = Inr (dependencies, dependency_set)"
| "merge_requires w (req # reqs) (dependencies, dependency_set) =
     (if \<not> path_exists w req then Inl (ScriptNotFoundError req)
      else let resolved = path_resolve w req in
        if resolved \<notin> dependency_set
        then merge_requires w reqs (dependencies @ [resolved], insert resolved dependency_set)
        else merge_requires w reqs (dependencies, dependency_set))"

text \<open>
  \<^verbatim>\<open>if requires:\<close> is false for \<^verbatim>\<open>None\<close> and for the empty list.
\<close>

fun truthy :: "path list option \<Rightarrow> bool" where
  "truthy None = False"
| "truthy (Some []) = False"
| "truthy (Some (r # rs)) = True"

fun requires_list :: "path list option \<Rightarrow> path list" where
  "requires_list None = []"
| "requires_list (Some rs) = rs"

text \<open>
  Line 146: the dependencies \<^verbatim>\<open>build\<close> starts from, with the analyzer call it made, if
  any. An omitted \<^verbatim>\<open>max_deps\<close> (\<open>None\<close>) is the default of the signature, 36.
\<close>

definition default_max_deps :: int where
  "default_max_deps = 36"

fun bound_of :: "int option \<Rightarrow> int" where
  "bound_of None = default_max_deps"
| "bound_of (Some n) = n"

definition initial_dependencies ::
  "world \<Rightarrow> path \<Rightarrow> int option \<Rightarrow> bool \<Rightarrow> (error + path list) \<times> call list" where
  "initial_dependencies w entry max_deps manual =
     (if manual then (Inr [], [])
      else (analyze_dependencies w entry (bound_of max_deps),
            [AnalyzeCall entry (bound_of max_deps)]))"

text \<open>Lines 148 to 159.\<close>

definition with_requires ::
  "world \<Rightarrow> path list option \<Rightarrow> path list \<Rightarrow> error + path list" where
  "with_requires w requires dependencies =
     (if truthy requires
      then (case merge_requires w (requires_list requires)
                   (dependencies, path_resolve w ` set dependencies) of
              Inl e \<Rightarrow> Inl e
            | Inr (dependencies', dependency_set') \<Rightarrow> Inr dependencies')
      else Inr dependencies)"

text \<open>Lines 161 to 169: the engine call, the log entry and the result.\<close>

definition run_engine ::
  "world \<Rightarrow> path \<Rightarrow> path list \<Rightarrow> path option \<Rightarrow> (error + path) \<times> call list" where
  "run_engine w entry dependencies output =
     (case compile_lua_script w entry dependencies output False of
        Inl e \<Rightarrow> (Inl e, [CompileCall entry dependencies output False])
      | Inr result \<Rightarrow>
          (Inr result,
           [CompileCall entry dependencies output False,
            LogSuccessCall ''api'' ''build''
              (''Built '' @ path_name w entry @ '' -> '' @ path_name w result)]))"

definition build ::
  "world \<Rightarrow> path \<Rightarrow> path list option \<Rightarrow> int option \<Rightarrow> path option \<Rightarrow> bool
     \<Rightarrow> (error + path) \<times> call list" where
  "build w entry requires max_deps output manual =
     (case initial_dependencies w entry max_deps manual of
        (Inl e, calls) \<Rightarrow> (Inl e, calls)
      | (Inr dependencies, calls) \<Rightarrow>
          (case with_requires w requires dependencies of
             Inl e \<Rightarrow> (Inl e, calls)
           | Inr dependencies' \<Rightarrow>
               (case run_engine w entry dependencies' output of
                  (r, calls') \<Rightarrow> (r, calls @ calls'))))"

subsection \<open>What the claims about \<^verbatim>\<open>build\<close> say, in HOL\<close>

text \<open>
  \<open>keep_first xs\<close> keeps the first occurrence of every element of \<open>xs\<close>, in the order of
  \<open>xs\<close> (\<open>remdups\<close> keeps the last ones).
\<close>

definition keep_first :: "'a list \<Rightarrow> 'a list" where
  "keep_first xs = rev (remdups (rev xs))"

text \<open>
  The dependency list as the specification describes it: the analyzed dependencies, then
  each explicit require, in its resolved form, whose resolved path is neither the resolved
  path of an analyzed dependency nor that of an earlier require, in the order given.
\<close>

definition merged_dependencies :: "world \<Rightarrow> path list \<Rightarrow> path list \<Rightarrow> path list" where
  "merged_dependencies w dependencies reqs =
     dependencies @
     keep_first (filter (\<lambda>p. p \<notin> path_resolve w ` set dependencies) (map (path_resolve w) reqs))"

definition first_missing :: "world \<Rightarrow> path list \<Rightarrow> path" where
  "first_missing w reqs = hd (filter (\<lambda>r. \<not> path_exists w r) reqs)"

text \<open>
  A small project for the concrete instances: \<^verbatim>\<open>/p/main.lua\<close> depends on
  \<^verbatim>\<open>/p/util.lua\<close>, which two relative spellings also name; the analysis of
  \<^verbatim>\<open>/p/loop.lua\<close> fails; \<^verbatim>\<open>missing.lua\<close> does not exist.
\<close>

definition demo_world :: world where
  "demo_world = \<lparr>
     path_exists = (\<lambda>p. p \<in> set [''/p/main.lua'', ''/p/util.lua'', ''util.lua'', ''./util.lua'',
                                  ''/p/extra.lua'', ''/p/loop.lua'']),
     path_resolve = (\<lambda>p. if p = ''util.lua'' \<or> p = ''./util.lua'' then ''/p/util.lua'' else p),
     path_name = (\<lambda>p. drop 3 p),
     analyze_dependencies = (\<lambda>e n.
        if e = ''/p/main.lua'' then Inr [''/p/util.lua'']
        else if e = ''/p/loop.lua'' then Inl (CircularDependencyError [''/p/loop.lua'', ''/p/loop.lua''])
        else Inl (ScriptNotFoundError e)),
     compile_lua_script = (\<lambda>e ds out v. Inr ''/p/main'') \<rparr>"

section \<open>The dependency analysis (\<^verbatim>\<open>dependency_analyzer\<close>)\<close>

text \<open>
  \<^verbatim>\<open>analyze\<close> (lines 108 to 121 of \<^verbatim>\<open>__init__.py\<close>) hands its arguments to
  \<^verbatim>\<open>dependency_analyzer.analyze_dependencies\<close>. That module is not among the sources, so
  the analysis is modelled from sections 3, 4.1 to 4.3, 6 and 7 of the specification: the
  data model first, then the breadth-first traversal of the DependencyGraph component.
\<close>

subsection \<open>Data model\<close>

text \<open>
  Modelled from the spec: the RequireSite record of section 3, produced by the
  SourceScanner (section 4.1), which is not among the sources. \<open>site_text\<close> is the content
  of the literal when \<open>site_literal\<close> holds and the raw argument text otherwise;
  \<open>site_line\<close> is the line of the call.
\<close>

record require_site =
  site_text :: string
  site_literal :: bool
  site_line :: nat

text \<open>
  Modelled from the spec: the three outcomes of the ModuleResolver (sections 3 and 4.2),
  which is not among the sources: a script file, with its canonical path; a native module,
  which cannot be bundled; no candidate file.
\<close>

datatype resolved_module = ScriptFile path | NativeModule path | Unresolved

text \<open>
  Modelled from the spec: the files on disk as the analysis sees them, since the scanner
  and the resolver are not among the sources. \<open>canonical_path p\<close> is the canonical path
  of the file \<open>p\<close>, or \<open>None\<close> when there is no such file; \<open>scan_requires p\<close> is the
  sequence of require sites the SourceScanner reports for the file with canonical path
  \<open>p\<close>, in the order of the text; \<open>resolve_module e name\<close> is the answer of the
  ModuleResolver for the module \<open>name\<close>, with the search roots of the analysis of the
  entry \<open>e\<close>. The analysis is verified for every such tree.
\<close>

record source_tree =
  canonical_path :: "path \<Rightarrow> path option"
  scan_requires :: "path \<Rightarrow> require_site list"
  resolve_module :: "path \<Rightarrow> string \<Rightarrow> resolved_module"

text \<open>
  Modelled from the spec: the DependencyGraph of section 3, whose code is not among the
  sources. \<open>nodes\<close> holds the canonical paths in the order of their discovery, the entry
  first; \<open>edges\<close> holds the pairs (unit, resolved dependency) recorded so far.
\<close>

record graph =
  nodes :: "path list"
  edges :: "(path \<times> path) list"

subsection \<open>The traversal (section 4.3)\<close>

text \<open>
  Modelled from the spec: the edge set of the DependencyGraph (section 3), whose code is
  not among the sources, read forwards: the dependencies recorded for the unit \<open>v\<close>.
\<close>

definition successors :: "('a \<times> 'a) list \<Rightarrow> 'a \<Rightarrow> 'a list" where
  "successors es v = map snd (filter (\<lambda>edge. fst edge = v) es)"

text \<open>
  Modelled from the spec: the search behind the ancestor test of section 4.3, whose code
  is not among the sources. \<open>find_path n es v u\<close> looks for a chain \<open>[v, \<dots>, u]\<close> of at
  most \<open>n\<close> recorded edges and returns the first one it finds.
\<close>

fun find_path :: "nat \<Rightarrow> ('a \<times> 'a) list \<Rightarrow> 'a \<Rightarrow> 'a \<Rightarrow> 'a list option" where
  "find_path 0 es v u = (if v = u then Some [v] else None)"
| "find_path (Suc n) es v u =
     (if v = u then Some [v]
      else case filter (\<lambda>r. r \<noteq> None) (map (\<lambda>w. find_path n es w u) (successors es v)) of
             [] \<Rightarrow> None
           | r # rs \<Rightarrow> map_option (\<lambda>p. v # p) r)"

text \<open>
  Modelled from the spec: the ancestor test of section 4.3, whose code is not among the
  sources. A resolved path \<open>v\<close> is an ancestor of the current unit \<open>u\<close> when \<open>u\<close> is
  reached from \<open>v\<close> along recorded edges, \<open>u\<close> itself included; the chain found becomes
  the reported cycle. As many steps as there are recorded edges are enough to find every
  chain (lemma \<open>path_between_iff\<close> below).
\<close>

definition path_between :: "('a \<times> 'a) list \<Rightarrow> 'a \<Rightarrow> 'a \<Rightarrow> 'a list option" where
  "path_between es v u = find_path (length es) es v u"

text \<open>
  Modelled from the spec: the treatment of one RequireSite of the unit \<open>u\<close> in section
  4.3, whose code is not among the sources. In the order of the specification: a site
  that is not a literal aborts with \<^verbatim>\<open>DynamicRequireError\<close> (file, line, raw text); a
  module that is not found or is native aborts with the corresponding error, carrying the
  requested name and the requesting file; a resolved path that is an ancestor of \<open>u\<close>
  aborts with \<^verbatim>\<open>CircularDependencyError\<close> carrying the cycle; a new node that would
  bring the node count above \<open>maxNodes\<close> aborts with \<^verbatim>\<open>DependencyLimitExceededError\<close>
  carrying the limit and the module name; otherwise the edge is recorded, and a new node
  is added and enqueued.
\<close>

definition visit_site ::
  "source_tree \<Rightarrow> path \<Rightarrow> int \<Rightarrow> path \<Rightarrow> require_site \<Rightarrow> graph \<times> path list
     \<Rightarrow> error + (graph \<times> path list)" where
  "visit_site T e maxNodes u s st =
     (case st of (g, queue) \<Rightarrow>
       if \<not> site_literal s then Inl (DynamicRequireError u (site_line s) (site_text s))
       else (case resolve_module T e (site_text s) of
          Unresolved \<Rightarrow> Inl (ModuleNotFoundError (site_text s) u)
        | NativeModule p \<Rightarrow> Inl (CModuleNotSupportedError (site_text s) u)
        | ScriptFile v \<Rightarrow>
           (case path_between (edges g) v u of
              Some p \<Rightarrow> Inl (CircularDependencyError (p @ [v]))
            | None \<Rightarrow>
               if v \<notin> set (nodes g)
               then if int (length (nodes g)) + 1 > maxNodes
                    then Inl (DependencyLimitExceededError maxNodes (site_text s))
                    else Inr (g\<lparr>nodes := nodes g @ [v], edges := edges g @ [(u, v)]\<rparr>, queue @ [v])
               else Inr (g\<lparr>edges := edges g @ [(u, v)]\<rparr>, queue))))"

text \<open>
  Modelled from the spec: "sites within one file are processed in the order SourceScanner
  reported them", and the first error ends the traversal. The code is not among the
  sources.
\<close>

fun visit_sites ::
  "source_tree \<Rightarrow> path \<Rightarrow> int \<Rightarrow> path \<Rightarrow> require_site list \<Rightarrow> graph \<times> path list
     \<Rightarrow> error + (graph \<times> path list)" where
  "visit_sites T e maxNodes u [] st = Inr st"
| "visit_sites T e maxNodes u (s # ss) st =
     (case visit_site T e maxNodes u s st of
        Inl err \<Rightarrow> Inl err
      | Inr st' \<Rightarrow> visit_sites T e maxNodes u ss st')"

text \<open>
  Every node added is also enqueued, and a node is only added within the limit: this is
  what makes the traversal terminate.
\<close>

lemma visit_site_growth:
  assumes "visit_site T e maxNodes u s (g, queue) = Inr (g', queue')"
  shows "\<exists>k. length (nodes g') = length (nodes g) + k \<and> length queue' = length queue + k \<and>
             (0 < k \<longrightarrow> int (length (nodes g')) \<le> maxNodes)"
  using assms
  by (auto simp: visit_site_def split: if_splits resolved_module.splits option.splits)

lemma visit_sites_growth:
  assumes "visit_sites T e maxNodes u ss (g, queue) = Inr (g', queue')"
  shows "\<exists>k. length (nodes g') = length (nodes g) + k \<and> length queue' = length queue + k \<and>
             (0 < k \<longrightarrow> int (length (nodes g')) \<le> maxNodes)"
  using assms
proof (induction ss arbitrary: g queue)
  case Nil
  then show ?case by simp
next
  case (Cons s ss)
  from Cons.prems obtain g1 q1 where
    step: "visit_site T e maxNodes u s (g, queue) = Inr (g1, q1)"
    and rest: "visit_sites T e maxNodes u ss (g1, q1) = Inr (g', queue')"
    by (auto split: sum.splits)
  from visit_site_growth [OF step] obtain k1 where
    k1: "length (nodes g1) = length (nodes g) + k1" "length q1 = length queue + k1"
    by blast
  from Cons.IH [OF rest] obtain k2 where
    k2: "length (nodes g') = length (nodes g1) + k2" "length queue' = length q1 + k2"
      "0 < k2 \<longrightarrow> int (length (nodes g')) \<le> maxNodes"
    by blast
  from visit_site_growth [OF step] k1 have
    k1': "0 < k1 \<longrightarrow> int (length (nodes g1)) \<le> maxNodes" by auto
  show ?case
  proof (intro exI [of _ "k1 + k2"] conjI impI)
    show "length (nodes g') = length (nodes g) + (k1 + k2)" using k1 k2 by simp
    show "length queue' = length queue + (k1 + k2)" using k1 k2 by simp
    assume "0 < k1 + k2"
    then show "int (length (nodes g')) \<le> maxNodes"
      using k1 k2 k1' by (cases "k2 = 0") auto
  qed
qed

text \<open>
  Modelled from the spec: the breadth-first loop of section 4.3, whose code is not among
  the sources. Files are dequeued in the order of their discovery.
\<close>

function traverse ::
  "source_tree \<Rightarrow> path \<Rightarrow> int \<Rightarrow> graph \<Rightarrow> path list \<Rightarrow> error + graph" where
  "traverse T e maxNodes g [] = Inr g"
| "traverse T e maxNodes g (u # queue) =
     (case visit_sites T e maxNodes u (scan_requires T u) (g, queue) of
        Inl err \<Rightarrow> Inl err
      | Inr (g', queue') \<Rightarrow> traverse T e maxNodes g' queue')"
  by pat_completeness auto

termination
proof (relation "measure (\<lambda>(T, e, maxNodes, g, queue).
          nat (maxNodes - int (length (nodes g))) + length queue)")
  show "wf (measure (\<lambda>(T, e, maxNodes, g, queue).
          nat (maxNodes - int (length (nodes g))) + length queue))"
    by simp
next
  fix T e maxNodes g u queue x2 g' queue'
  assume "visit_sites T e maxNodes u (scan_requires T u) (g, queue) = Inr x2"
    and "(g', queue') = x2"
  then have "visit_sites T e maxNodes u (scan_requires T u) (g, queue) = Inr (g', queue')"
    by simp
  from visit_sites_growth [OF this] obtain k where
    "length (nodes g') = length (nodes g) + k" "length queue' = length queue + k"
    "0 < k \<longrightarrow> int (length (nodes g')) \<le> maxNodes"
    by blast
  then show "((T, e, maxNodes, g', queue'), (T, e, maxNodes, g, u # queue))
      \<in> measure (\<lambda>(T, e, maxNodes, g, queue).
          nat (maxNodes - int (length (nodes g))) + length queue)"
    by (cases "k = 0") auto
qed

text \<open>
  Modelled from the spec: \<^verbatim>\<open>analyze_dependencies\<close>, the contract
  \<^verbatim>\<open>build(entryPath, maxNodes)\<close> of section 4.3, whose code is not among the sources. An
  entry that does not exist is \<^verbatim>\<open>ScriptNotFoundError\<close> (section 6). The entry is the first
  node of the graph and counts against the ceiling, which is "checked before each
  insertion" (sections 3 and 9): a ceiling below 1 does not admit the entry. The result
  is every node but the entry, in discovery order.
\<close>

definition dependency_graph_build :: "source_tree \<Rightarrow> path \<Rightarrow> int \<Rightarrow> error + path list" where
  "dependency_graph_build T entry maxNodes =
     (case canonical_path T entry of
        None \<Rightarrow> Inl (ScriptNotFoundError entry)
      | Some e \<Rightarrow>
          if 1 > maxNodes then Inl (DependencyLimitExceededError maxNodes entry)
          else (case traverse T e maxNodes \<lparr>nodes = [e], edges = []\<rparr> [e] of
                  Inl err \<Rightarrow> Inl err
                | Inr g \<Rightarrow> Inr (filter (\<lambda>p. p \<noteq> e) (nodes g))))"

text \<open>
  \<^verbatim>\<open>analyze\<close>, lines 108 to 121 of \<^verbatim>\<open>__init__.py\<close>: an omitted \<^verbatim>\<open>max_deps\<close> is 36.
\<close>

definition analyze :: "source_tree \<Rightarrow> path \<Rightarrow> int option \<Rightarrow> error + path list" where
  "analyze T entry max_deps = dependency_graph_build T entry (bound_of max_deps)"

subsection \<open>The require graph of a source tree\<close>

text \<open>
  The words of the claims: file \<open>p\<close> requires file \<open>q\<close> when a literal require of
  \<open>p\<close> resolves to the script \<open>q\<close>; the files reachable from the entry are those its
  transitive requires lead to, the entry included.
\<close>

definition require_edges :: "source_tree \<Rightarrow> path \<Rightarrow> (path \<times> path) set" where
  "require_edges T e =
     {(p, q). \<exists>s \<in> set (scan_requires T p).
        site_literal s \<and> resolve_module T e (site_text s) = ScriptFile q}"

definition reachable_files :: "source_tree \<Rightarrow> path \<Rightarrow> path set" where
  "reachable_files T e = {q. (e, q) \<in> (require_edges T e)\<^sup>*}"

text \<open>
  A require graph without defects: every require of every reachable file is a literal
  that resolves to a script, and no reachable file requires itself transitively.
  \<open>literal_sites_resolved\<close> asks this of the literal requires only.
\<close>

definition sites_resolved :: "source_tree \<Rightarrow> path \<Rightarrow> bool" where
  "sites_resolved T e =
     (\<forall>p \<in> reachable_files T e. \<forall>s \<in> set (scan_requires T p).
        site_literal s \<and> (\<exists>q. resolve_module T e (site_text s) = ScriptFile q))"

definition acyclic_requires :: "source_tree \<Rightarrow> path \<Rightarrow> bool" where
  "acyclic_requires T e = (\<forall>p \<in> reachable_files T e. (p, p) \<notin> (require_edges T e)\<^sup>+)"


text \<open>A chain of files, each related to the next.\<close>

fun is_walk :: "('a \<times> 'a) set \<Rightarrow> 'a list \<Rightarrow> bool" where
  "is_walk E [] = False"
| "is_walk E [x] = True"
| "is_walk E (x # y # zs) = ((x, y) \<in> E \<and> is_walk E (y # zs))"

text \<open>
  What an analysis error reports: a non-literal require of a reachable file, with its line
  and text; a literal require of a reachable file that resolves to nothing, or to a native
  module; a cycle of the require graph through a reachable file; more reachable files than
  the limit admits.
\<close>

fun genuine_error :: "source_tree \<Rightarrow> path \<Rightarrow> int \<Rightarrow> error \<Rightarrow> bool" where
  "genuine_error T e m (DynamicRequireError u l t) =
     (u \<in> reachable_files T e \<and>
      (\<exists>s \<in> set (scan_requires T u). \<not> site_literal s \<and> site_line s = l \<and> site_text s = t))"
| "genuine_error T e m (ModuleNotFoundError n u) =
     (u \<in> reachable_files T e \<and>
      (\<exists>s \<in> set (scan_requires T u). site_literal s \<and> site_text s = n) \<and>
      resolve_module T e n = Unresolved)"
| "genuine_error T e m (CModuleNotSupportedError n u) =
     (u \<in> reachable_files T e \<and>
      (\<exists>s \<in> set (scan_requires T u). site_literal s \<and> site_text s = n) \<and>
      (\<exists>p. resolve_module T e n = NativeModule p))"
| "genuine_error T e m (CircularDependencyError c) =
     (is_walk (require_edges T e) c \<and> 2 \<le> length c \<and> hd c = last c \<and>
      hd c \<in> reachable_files T e)"
| "genuine_error T e m (DependencyLimitExceededError n name) =
     (n = m \<and> (\<exists>xs. distinct xs \<and> set xs \<subseteq> reachable_files T e \<and> m < int (length xs)))"
| "genuine_error T e m err = False"






text \<open>
  The invariant of the traversal. A site of \<open>p\<close> is done when its target is a node and
  its edge is recorded. The graph holds distinct reachable files, among them the entry,
  within the limit; its edges are require edges, none of them in both directions; and
  every node that is not waiting in the queue has all its sites done.
\<close>

definition site_done :: "source_tree \<Rightarrow> path \<Rightarrow> graph \<Rightarrow> path \<Rightarrow> require_site \<Rightarrow> bool" where
  "site_done T e g p s =
     (site_literal s \<and>
      (\<exists>q. resolve_module T e (site_text s) = ScriptFile q \<and> q \<in> set (nodes g) \<and>
           (p, q) \<in> set (edges g)))"

definition graph_inv :: "source_tree \<Rightarrow> path \<Rightarrow> int \<Rightarrow> graph \<Rightarrow> bool" where
  "graph_inv T e m g =
     (distinct (nodes g) \<and> e \<in> set (nodes g) \<and> set (nodes g) \<subseteq> reachable_files T e \<and>
      set (edges g) \<subseteq> require_edges T e \<and> int (length (nodes g)) \<le> m \<and>
      (\<forall>x y. (x, y) \<in> set (edges g) \<longrightarrow> (y, x) \<notin> set (edges g)))"

definition closed_except :: "source_tree \<Rightarrow> path \<Rightarrow> graph \<Rightarrow> path set \<Rightarrow> bool" where
  "closed_except T e g X =
     (\<forall>p \<in> set (nodes g). p \<notin> X \<longrightarrow> (\<forall>s \<in> set (scan_requires T p). site_done T e g p s))"

definition traversal_inv :: "source_tree \<Rightarrow> path \<Rightarrow> int \<Rightarrow> graph \<Rightarrow> path list \<Rightarrow> bool" where
  "traversal_inv T e m g queue =
     (graph_inv T e m g \<and> set queue \<subseteq> set (nodes g) \<and> closed_except T e g (set queue))"


subsection \<open>Example projects\<close>

text \<open>
  \<open>project files\<close> is a directory \<^verbatim>\<open>/p\<close> holding one script \<^verbatim>\<open>/p/<name>.lua\<close> for
  each pair of a module name and the require sites of its text; a module name resolves to
  its script, \<^verbatim>\<open>lfs\<close> is a native module, and nothing else is found.
\<close>

definition literal_site :: "string \<Rightarrow> nat \<Rightarrow> require_site" where
  "literal_site name line = \<lparr>site_text = name, site_literal = True, site_line = line\<rparr>"


definition project :: "(string \<times> require_site list) list \<Rightarrow> source_tree" where
  "project files = \<lparr>
     canonical_path = (\<lambda>p. if p \<in> set (map (\<lambda>f. ''/p/'' @ fst f @ ''.lua'') files) then Some p
                          else if p \<in> set (map (\<lambda>f. fst f @ ''.lua'') files) then Some (''/p/'' @ p)
                          else None),
     scan_requires = (\<lambda>p. case map_of (map (\<lambda>f. (''/p/'' @ fst f @ ''.lua'', snd f)) files) p of
                             Some ss \<Rightarrow> ss | None \<Rightarrow> []),
     resolve_module = (\<lambda>e name. if name \<in> set (map fst files) then ScriptFile (''/p/'' @ name @ ''.lua'')
                                 else if name = ''lfs'' then NativeModule ''/p/lfs.so''
                                 else Unresolved) \<rparr>"

text \<open>
  A diamond: \<^verbatim>\<open>main\<close> requires \<^verbatim>\<open>a\<close> and \<^verbatim>\<open>b\<close>, and both require \<^verbatim>\<open>c\<close>.
\<close>

definition diamond_project :: source_tree where
  "diamond_project = project
     [(''main'', [literal_site ''a'' 1, literal_site ''b'' 2]),
      (''a'', [literal_site ''c'' 1]),
      (''b'', [literal_site ''c'' 1]),
      (''c'', [])]"









section \<open>Properties of \<^verbatim>\<open>build\<close>\<close>

subsection \<open>The loop over the explicit requires\<close>

lemma remdups_snoc: "remdups (ys @ [x]) = remdups (removeAll x ys) @ [x]"
  by (induction ys) auto

lemma keep_first_Nil: "keep_first [] = []"
  by (simp add: keep_first_def)

lemma keep_first_Cons: "keep_first (x # xs) = x # keep_first (removeAll x xs)"
  by (simp add: keep_first_def remdups_snoc removeAll_filter_not_eq rev_filter)

lemma removeAll_filter_notin:
  "removeAll x (filter (\<lambda>p. p \<notin> S) ys) = filter (\<lambda>p. p \<notin> insert x S) ys"
  by (induction ys) auto

lemma merge_requires_all_exist:
  "list_all (path_exists w) reqs \<Longrightarrow>
   merge_requires w reqs (deps, S) =
     Inr (deps @ keep_first (filter (\<lambda>p. p \<notin> S) (map (path_resolve w) reqs)),
          S \<union> path_resolve w ` set reqs)"
proof (induction reqs arbitrary: deps S)
  case Nil
  then show ?case by (simp add: keep_first_Nil)
next
  case (Cons r rs)
  then show ?case
    by (auto simp: keep_first_Cons removeAll_filter_notin Let_def)
qed

lemma merge_requires_missing:
  "\<not> list_all (path_exists w) reqs \<Longrightarrow>
   merge_requires w reqs (deps, S) = Inl (ScriptNotFoundError (first_missing w reqs))"
proof (induction reqs arbitrary: deps S)
  case Nil
  then show ?case by simp
next
  case (Cons r rs)
  then show ?case by (auto simp: Let_def first_missing_def)
qed

lemma with_requires_all_exist:
  "list_all (path_exists w) (requires_list requires) \<Longrightarrow>
   with_requires w requires deps = Inr (merged_dependencies w deps (requires_list requires))"
  by (cases requires rule: truthy.cases)
     (simp_all add: with_requires_def merged_dependencies_def merge_requires_all_exist keep_first_Nil
        del: merge_requires.simps)

lemma with_requires_missing:
  "\<not> list_all (path_exists w) (requires_list requires) \<Longrightarrow>
   with_requires w requires deps = Inl (ScriptNotFoundError (first_missing w (requires_list requires)))"
  by (cases requires rule: truthy.cases)
     (simp_all add: with_requires_def merge_requires_missing del: merge_requires.simps)

lemma first_missing_is_missing:
  assumes "r \<in> set reqs" and "\<not> path_exists w r"
  shows "first_missing w reqs \<in> set reqs \<and> \<not> path_exists w (first_missing w reqs)"
proof -
  have "filter (\<lambda>r. \<not> path_exists w r) reqs \<noteq> []"
    using assms by (auto simp: filter_empty_conv)
  then have "first_missing w reqs \<in> set (filter (\<lambda>r. \<not> path_exists w r) reqs)"
    unfolding first_missing_def by (rule hd_in_set)
  then show ?thesis by simp
qed

subsection \<open>The two modes\<close>

lemma run_engine_fst: "fst (run_engine w entry ds output) = compile_lua_script w entry ds output False"
  by (simp add: run_engine_def split: sum.splits)

lemma run_engine_calls:
  "\<exists>cs. snd (run_engine w entry ds output) = CompileCall entry ds output False # cs \<and>
        \<not> list_ex is_AnalyzeCall cs \<and> \<not> list_ex is_CompileCall cs"
  by (simp add: run_engine_def split: sum.splits)

lemma build_manual:
  "build w entry requires max_deps output True =
     (case with_requires w requires [] of
        Inl e \<Rightarrow> (Inl e, [])
      | Inr ds \<Rightarrow> run_engine w entry ds output)"
  by (simp add: build_def initial_dependencies_def split: sum.splits prod.splits)

lemma build_automatic:
  "build w entry requires max_deps output False =
     (case analyze_dependencies w entry (bound_of max_deps) of
        Inl e \<Rightarrow> (Inl e, [AnalyzeCall entry (bound_of max_deps)])
      | Inr deps \<Rightarrow>
          (case with_requires w requires deps of
             Inl e \<Rightarrow> (Inl e, [AnalyzeCall entry (bound_of max_deps)])
           | Inr ds \<Rightarrow> (fst (run_engine w entry ds output),
                        AnalyzeCall entry (bound_of max_deps) # snd (run_engine w entry ds output))))"
  by (simp add: build_def initial_dependencies_def split: sum.splits prod.splits)

lemma demo_merged:
  "merged_dependencies demo_world [''/p/util.lua'']
     [''util.lua'', ''/p/extra.lua'', ''./util.lua'', ''/p/extra.lua'']
   = [''/p/util.lua'', ''/p/extra.lua'']"
  "merged_dependencies demo_world []
     [''util.lua'', ''/p/extra.lua'', ''./util.lua'', ''/p/extra.lua'']
   = [''/p/util.lua'', ''/p/extra.lua'']"
  by (simp_all add: merged_dependencies_def keep_first_def demo_world_def)

subsection \<open>The claims\<close>

text \<open>
  C1. For every call of \<^verbatim>\<open>build\<close>: in automatic mode (\<open>manual\<close> false) the first thing
  \<^verbatim>\<open>build\<close> does is to run the dependency analysis on the entry with the bound
  \<open>max_deps\<close>; in manual mode no analysis is run at all. Whenever the packaging engine is
  invoked, the dependency list it receives is the analyzed dependencies (none in manual
  mode) followed by the explicit requires, each in its resolved canonical form, in the
  order given, leaving out every require whose resolved path is that of an analyzed
  dependency or of an earlier require; and the engine is invoked with that list and the
  entry whenever the analysis succeeded (or was skipped) and every explicit require exists.
\<close>

theorem build_dependency_list:
  "(\<not> manual \<longrightarrow>
      take 1 (snd (build w entry requires max_deps output manual))
        = [AnalyzeCall entry (bound_of max_deps)]) \<and>
   (manual \<longrightarrow> \<not> list_ex is_AnalyzeCall (snd (build w entry requires max_deps output manual))) \<and>
   (\<forall>deps. (if manual then deps = []
            else analyze_dependencies w entry (bound_of max_deps) = Inr deps) \<longrightarrow>
      (\<forall>e ds out v. CompileCall e ds out v \<in> set (snd (build w entry requires max_deps output manual))
          \<longrightarrow> ds = merged_dependencies w deps (requires_list requires)) \<and>
      (list_all (path_exists w) (requires_list requires) \<longrightarrow>
         CompileCall entry (merged_dependencies w deps (requires_list requires)) output False
           \<in> set (snd (build w entry requires max_deps output manual))))"
proof (cases manual)
  case True
  obtain cs where cs: "snd (run_engine w entry (merged_dependencies w [] (requires_list requires)) output)
      = CompileCall entry (merged_dependencies w [] (requires_list requires)) output False # cs"
      "\<not> list_ex is_AnalyzeCall cs" "\<not> list_ex is_CompileCall cs"
    using run_engine_calls by blast
  show ?thesis
  proof (cases "list_all (path_exists w) (requires_list requires)")
    case ex: True
    have "\<And>c. c \<in> set cs \<Longrightarrow> \<not> is_CompileCall c" using cs(3) by (simp add: list_ex_iff)
    then have "\<And>e ds out v. CompileCall e ds out v \<notin> set cs" by fastforce
    then show ?thesis using True ex cs
      by (auto simp: build_manual with_requires_all_exist)
  next
    case False
    then show ?thesis using True
      by (simp add: build_manual with_requires_missing)
  qed
next
  case False
  show ?thesis
  proof (cases "analyze_dependencies w entry (bound_of max_deps)")
    case (Inl e)
    then show ?thesis using False by (simp add: build_automatic)
  next
    case (Inr deps)
    obtain cs where cs: "snd (run_engine w entry (merged_dependencies w deps (requires_list requires)) output)
      = CompileCall entry (merged_dependencies w deps (requires_list requires)) output False # cs"
      "\<not> list_ex is_AnalyzeCall cs" "\<not> list_ex is_CompileCall cs"
      using run_engine_calls by blast
    show ?thesis
    proof (cases "list_all (path_exists w) (requires_list requires)")
      case ex: True
      have "\<And>c. c \<in> set cs \<Longrightarrow> \<not> is_CompileCall c" using cs(3) by (simp add: list_ex_iff)
      then have "\<And>e ds out v. CompileCall e ds out v \<notin> set cs" by fastforce
      then show ?thesis using False Inr ex cs
        by (auto simp: build_automatic with_requires_all_exist)
    next
      case nex: False
      then show ?thesis using False Inr
        by (simp add: build_automatic with_requires_missing)
    qed
  qed
qed

theorem build_dependency_list_witness:
  "analyze_dependencies demo_world ''/p/main.lua'' (bound_of None) = Inr [''/p/util.lua''] \<and>
   list_all (path_exists demo_world) [''util.lua'', ''/p/extra.lua'', ''./util.lua'', ''/p/extra.lua''] \<and>
   take 1 (snd (build demo_world ''/p/main.lua''
       (Some [''util.lua'', ''/p/extra.lua'', ''./util.lua'', ''/p/extra.lua'']) None None False))
     = [AnalyzeCall ''/p/main.lua'' 36] \<and>
   CompileCall ''/p/main.lua'' [''/p/util.lua'', ''/p/extra.lua''] None False
     \<in> set (snd (build demo_world ''/p/main.lua''
         (Some [''util.lua'', ''/p/extra.lua'', ''./util.lua'', ''/p/extra.lua'']) None None False)) \<and>
   \<not> list_ex is_AnalyzeCall (snd (build demo_world ''/p/main.lua''
         (Some [''util.lua'', ''/p/extra.lua'', ''./util.lua'', ''/p/extra.lua'']) None None True)) \<and>
   CompileCall ''/p/main.lua'' [''/p/util.lua'', ''/p/extra.lua''] None False
     \<in> set (snd (build demo_world ''/p/main.lua''
         (Some [''util.lua'', ''/p/extra.lua'', ''./util.lua'', ''/p/extra.lua'']) None None True))"
proof -
  have a: "analyze_dependencies demo_world ''/p/main.lua'' (bound_of None) = Inr [''/p/util.lua'']"
    by (simp add: demo_world_def)
  have b: "list_all (path_exists demo_world)
      [''util.lua'', ''/p/extra.lua'', ''./util.lua'', ''/p/extra.lua'']"
    by (simp add: demo_world_def)
  note auto_mode = build_dependency_list [of False demo_world "''/p/main.lua''"
      "Some [''util.lua'', ''/p/extra.lua'', ''./util.lua'', ''/p/extra.lua'']" None None]
  note manual_mode = build_dependency_list [of True demo_world "''/p/main.lua''"
      "Some [''util.lua'', ''/p/extra.lua'', ''./util.lua'', ''/p/extra.lua'']" None None]
  show ?thesis
    using auto_mode manual_mode a b by (simp add: default_max_deps_def demo_merged)
qed

text \<open>
  C7. For every invocation of \<^verbatim>\<open>build\<close> in which the dependency analysis fails, that
  error is the result of \<^verbatim>\<open>build\<close>, unchanged: the only call made is the one to the
  analyzer, so no dependency list is built from the requires and the packaging engine is
  never invoked.
\<close>

theorem build_analysis_failure:
  assumes "\<not> manual"
    and "analyze_dependencies w entry (bound_of max_deps) = Inl e"
  shows "fst (build w entry requires max_deps output manual) = Inl e \<and>
         snd (build w entry requires max_deps output manual) = [AnalyzeCall entry (bound_of max_deps)] \<and>
         \<not> list_ex is_CompileCall (snd (build w entry requires max_deps output manual))"
  using assms by (simp add: build_automatic)

theorem build_analysis_failure_witness:
  "analyze_dependencies demo_world ''/p/loop.lua'' (bound_of (Some 5))
     = Inl (CircularDependencyError [''/p/loop.lua'', ''/p/loop.lua'']) \<and>
   fst (build demo_world ''/p/loop.lua'' (Some [''/p/extra.lua'']) (Some 5) None False)
     = Inl (CircularDependencyError [''/p/loop.lua'', ''/p/loop.lua'']) \<and>
   snd (build demo_world ''/p/loop.lua'' (Some [''/p/extra.lua'']) (Some 5) None False)
     = [AnalyzeCall ''/p/loop.lua'' 5] \<and>
   \<not> list_ex is_CompileCall
       (snd (build demo_world ''/p/loop.lua'' (Some [''/p/extra.lua'']) (Some 5) None False))"
proof -
  have a: "analyze_dependencies demo_world ''/p/loop.lua'' (bound_of (Some 5))
      = Inl (CircularDependencyError [''/p/loop.lua'', ''/p/loop.lua''])"
    by (simp add: demo_world_def)
  have m: "\<not> False" by simp
  show ?thesis
    using a build_analysis_failure [OF m a, of "Some [''/p/extra.lua'']" None] by simp
qed

text \<open>
  C8, as the code has it. If some path of the explicit requires does not exist, \<^verbatim>\<open>build\<close>
  fails without invoking the packaging engine, in both modes. In manual mode, and in
  automatic mode when the analysis succeeded, the error is \<^verbatim>\<open>ScriptNotFoundError\<close> for the
  first path of the requires that does not exist; in automatic mode the analysis runs
  before the requires are looked at, and when it fails its error is the one raised.
\<close>

theorem build_missing_require:
  assumes "r \<in> set (requires_list requires)" and "\<not> path_exists w r"
  shows "(\<exists>e. fst (build w entry requires max_deps output manual) = Inl e) \<and>
         \<not> list_ex is_CompileCall (snd (build w entry requires max_deps output manual)) \<and>
         (manual \<or> (\<exists>deps. analyze_dependencies w entry (bound_of max_deps) = Inr deps) \<longrightarrow>
            fst (build w entry requires max_deps output manual)
              = Inl (ScriptNotFoundError (first_missing w (requires_list requires))) \<and>
            first_missing w (requires_list requires) \<in> set (requires_list requires) \<and>
            \<not> path_exists w (first_missing w (requires_list requires))) \<and>
         (\<forall>e. \<not> manual \<and> analyze_dependencies w entry (bound_of max_deps) = Inl e \<longrightarrow>
            fst (build w entry requires max_deps output manual) = Inl e)"
proof -
  have missing: "\<not> list_all (path_exists w) (requires_list requires)"
    using assms by (auto simp: list_all_iff)
  note fm = first_missing_is_missing [OF assms]
  show ?thesis
  proof (cases manual)
    case True
    then show ?thesis using missing fm by (simp add: build_manual with_requires_missing)
  next
    case False
    then show ?thesis using missing fm
      by (cases "analyze_dependencies w entry (bound_of max_deps)")
         (simp_all add: build_automatic with_requires_missing)
  qed
qed

theorem build_missing_require_witness:
  "''missing.lua'' \<in> set (requires_list (Some [''util.lua'', ''missing.lua''])) \<and>
   \<not> path_exists demo_world ''missing.lua'' \<and>
   fst (build demo_world ''/p/main.lua'' (Some [''util.lua'', ''missing.lua'']) None None True)
     = Inl (ScriptNotFoundError ''missing.lua'') \<and>
   \<not> list_ex is_CompileCall
       (snd (build demo_world ''/p/main.lua'' (Some [''util.lua'', ''missing.lua'']) None None True))"
proof -
  have a: "''missing.lua'' \<in> set (requires_list (Some [''util.lua'', ''missing.lua'']))"
    by simp
  have b: "\<not> path_exists demo_world ''missing.lua''"
    by (simp add: demo_world_def)
  have c: "first_missing demo_world [''util.lua'', ''missing.lua''] = ''missing.lua''"
    by (simp add: first_missing_def demo_world_def)
  show ?thesis
    using a b build_missing_require [OF a b, of "''/p/main.lua''" None None True]
    by (simp add: c)
qed

text \<open>
  The claim as the specification words it promises \<^verbatim>\<open>ScriptNotFoundError\<close> in both modes.
  In automatic mode with a failing analysis the error is the one of the analysis: here the
  analysis of \<^verbatim>\<open>/p/loop.lua\<close> reports a cycle, and \<^verbatim>\<open>missing.lua\<close> is never looked at.
\<close>

theorem build_missing_require_counterexample:
  "''missing.lua'' \<in> set (requires_list (Some [''missing.lua''])) \<and>
   \<not> path_exists demo_world ''missing.lua'' \<and>
   fst (build demo_world ''/p/loop.lua'' (Some [''missing.lua'']) None None False)
     = Inl (CircularDependencyError [''/p/loop.lua'', ''/p/loop.lua'']) \<and>
   fst (build demo_world ''/p/loop.lua'' (Some [''missing.lua'']) None None False)
     \<noteq> Inl (ScriptNotFoundError ''missing.lua'')"
  by (simp add: build_def initial_dependencies_def demo_world_def)

text \<open>
  C10. In manual mode with no explicit requires (\<^verbatim>\<open>None\<close> or the empty list), \<^verbatim>\<open>build\<close>
  runs no analysis, invokes the packaging engine with the entry and an empty dependency
  list, and its result is the engine's: it fails only if the engine does.
\<close>

theorem build_manual_without_requires:
  assumes "requires = None \<or> requires = Some []"
  shows "fst (build w entry requires max_deps output True)
           = compile_lua_script w entry [] output False \<and>
         take 1 (snd (build w entry requires max_deps output True))
           = [CompileCall entry [] output False] \<and>
         \<not> list_ex is_AnalyzeCall (snd (build w entry requires max_deps output True))"
proof -
  have "with_requires w requires [] = Inr []"
    using assms by (auto simp: with_requires_def)
  moreover obtain cs where "snd (run_engine w entry [] output) = CompileCall entry [] output False # cs"
    "\<not> list_ex is_AnalyzeCall cs"
    using run_engine_calls by blast
  ultimately show ?thesis
    by (simp add: build_manual run_engine_fst)
qed

theorem build_manual_without_requires_witness:
  "fst (build demo_world ''/p/main.lua'' (Some []) None None True) = Inr ''/p/main'' \<and>
   take 1 (snd (build demo_world ''/p/main.lua'' (Some []) None None True))
     = [CompileCall ''/p/main.lua'' [] None False] \<and>
   \<not> list_ex is_AnalyzeCall (snd (build demo_world ''/p/main.lua'' (Some []) None None True)) \<and>
   fst (build demo_world ''/p/main.lua'' None None None True) = Inr ''/p/main''"
proof -
  have a: "Some [] = None \<or> Some [] = Some ([]::path list)" by simp
  have b: "None = None \<or> None = Some ([]::path list)" by simp
  have c: "compile_lua_script demo_world ''/p/main.lua'' [] None False = Inr ''/p/main''"
    by (simp add: demo_world_def)
  show ?thesis
    using build_manual_without_requires [OF a, of demo_world "''/p/main.lua''" None None]
      build_manual_without_requires [OF b, of demo_world "''/p/main.lua''" None None]
    by (simp add: c)
qed

section \<open>Properties of the dependency analysis\<close>

subsection \<open>Chains in the recorded edges\<close>

lemma is_walk_nonempty: "is_walk E p \<Longrightarrow> p \<noteq> []"
  by (cases p) auto

lemma is_walk_Cons:
  "is_walk E p \<Longrightarrow> (x, hd p) \<in> E \<Longrightarrow> is_walk E (x # p)"
  by (cases p) auto

lemma is_walk_snoc:
  "is_walk E p \<Longrightarrow> (last p, x) \<in> E \<Longrightarrow> is_walk E (p @ [x])"
  by (induction E p rule: is_walk.induct) auto

lemma is_walk_mono: "is_walk E p \<Longrightarrow> E \<subseteq> F \<Longrightarrow> is_walk F p"
  by (induction E p rule: is_walk.induct) auto

lemma is_walk_rtrancl: "is_walk E p \<Longrightarrow> (hd p, last p) \<in> E\<^sup>*"
proof (induction E p rule: is_walk.induct)
  case (3 E x y zs)
  then have "(x, y) \<in> E" and "(y, last (y # zs)) \<in> E\<^sup>*" by auto
  then show ?case by (simp add: converse_rtrancl_into_rtrancl)
qed auto

lemma is_walk_trancl: "is_walk E p \<Longrightarrow> 2 \<le> length p \<Longrightarrow> (hd p, last p) \<in> E\<^sup>+"
proof (cases p)
  case Nil
  assume "2 \<le> length p" with Nil show ?thesis by simp
next
  case (Cons x ys)
  assume w: "is_walk E p" and l: "2 \<le> length p"
  from Cons l obtain y zs where ys: "ys = y # zs" by (cases ys) auto
  from w Cons ys have "(x, y) \<in> E" and "is_walk E (y # zs)" by auto
  from is_walk_rtrancl [OF this(2)] this(1) show ?thesis
    using Cons ys by (simp add: rtrancl_into_trancl2)
qed

lemma in_successors: "w \<in> set (successors es v) \<longleftrightarrow> (v, w) \<in> set es"
  by (force simp: successors_def)

lemma find_path_sound:
  "find_path n es v u = Some p \<Longrightarrow> is_walk (set es) p \<and> hd p = v \<and> last p = u"
proof (induction n arbitrary: v p)
  case 0
  then show ?case by (auto split: if_splits)
next
  case (Suc n)
  show ?case
  proof (cases "v = u")
    case True
    with Suc.prems show ?thesis by auto
  next
    case False
    with Suc.prems obtain r rs where
      f: "filter (\<lambda>r. r \<noteq> None) (map (\<lambda>w. find_path n es w u) (successors es v)) = r # rs"
      and r: "map_option (\<lambda>p. v # p) r = Some p"
      by (auto split: list.splits)
    from f have "r \<in> set (filter (\<lambda>r. r \<noteq> None) (map (\<lambda>w. find_path n es w u) (successors es v)))"
      by simp
    then obtain w where w: "w \<in> set (successors es v)" "r = find_path n es w u"
      by auto
    from r obtain p' where p': "r = Some p'" "p = v # p'" by auto
    from Suc.IH [of w p'] w p' have ih: "is_walk (set es) p'" "hd p' = w" "last p' = u"
      by auto
    have "(v, w) \<in> set es" using w(1) by (simp add: in_successors)
    with ih p' show ?thesis
      by (auto simp: is_walk_Cons dest: is_walk_nonempty)
  qed
qed

lemma find_path_refl: "find_path n es u u = Some [u]"
  by (cases n) auto

lemma find_path_edge:
  assumes "(v, u) \<in> set es"
  shows "find_path (Suc n) es v u \<noteq> None"
proof (cases "v = u")
  case True
  then show ?thesis by simp
next
  case False
  have "u \<in> set (successors es v)" using assms by (simp add: in_successors)
  then have "Some [u] \<in> set (map (\<lambda>w. find_path n es w u) (successors es v))"
    using find_path_refl [of n es u] by force
  then have "\<exists>r \<in> set (map (\<lambda>w. find_path n es w u) (successors es v)). r \<noteq> None"
    by (rule rev_bexI) simp
  then have "filter (\<lambda>r. r \<noteq> None) (map (\<lambda>w. find_path n es w u) (successors es v)) \<noteq> []"
    unfolding filter_empty_conv by blast
  then obtain r rs where
    f: "filter (\<lambda>r. r \<noteq> None) (map (\<lambda>w. find_path n es w u) (successors es v)) = r # rs"
    by (cases "filter (\<lambda>r. r \<noteq> None) (map (\<lambda>w. find_path n es w u) (successors es v))") auto
  then have "r \<in> set (filter (\<lambda>r. r \<noteq> None) (map (\<lambda>w. find_path n es w u) (successors es v)))"
    by simp
  then have "r \<noteq> None" by simp
  with f False show ?thesis by auto
qed

lemma path_between_sound:
  "path_between es v u = Some p \<Longrightarrow> is_walk (set es) p \<and> hd p = v \<and> last p = u"
  unfolding path_between_def by (rule find_path_sound)

lemma path_between_None:
  assumes "path_between es v u = None"
  shows "v \<noteq> u \<and> (v, u) \<notin> set es"
proof
  show "v \<noteq> u" using assms find_path_refl [of "length es" es u]
    by (auto simp: path_between_def)
  show "(v, u) \<notin> set es"
  proof
    assume in_es: "(v, u) \<in> set es"
    then obtain n where "length es = Suc n" by (cases es) auto
    with find_path_edge [OF in_es, of n] assms show False
      by (simp add: path_between_def)
  qed
qed

lemma relpow_find_path:
  "(v, u) \<in> set es ^^ k \<Longrightarrow> k \<le> n \<Longrightarrow> find_path n es v u \<noteq> None"
proof (induction n arbitrary: k v)
  case 0
  then show ?case by simp
next
  case (Suc n)
  show ?case
  proof (cases "v = u")
    case True
    then show ?thesis by simp
  next
    case False
    with Suc.prems(1) obtain k' where k: "k = Suc k'" by (cases k) auto
    from Suc.prems(1) have "(v, u) \<in> set es ^^ Suc k'" unfolding k .
    from relpow_Suc_D2 [OF this] obtain w where w: "(v, w) \<in> set es" "(w, u) \<in> set es ^^ k'"
      by blast
    from Suc.IH [OF w(2)] Suc.prems(2) k have "find_path n es w u \<noteq> None" by simp
    moreover have "w \<in> set (successors es v)" using w(1) by (simp add: in_successors)
    ultimately have "\<exists>r \<in> set (map (\<lambda>w. find_path n es w u) (successors es v)). r \<noteq> None"
      by auto
    then have "filter (\<lambda>r. r \<noteq> None) (map (\<lambda>w. find_path n es w u) (successors es v)) \<noteq> []"
      unfolding filter_empty_conv by blast
    then obtain r rs where
      f: "filter (\<lambda>r. r \<noteq> None) (map (\<lambda>w. find_path n es w u) (successors es v)) = r # rs"
      by (cases "filter (\<lambda>r. r \<noteq> None) (map (\<lambda>w. find_path n es w u) (successors es v))") auto
    then have "r \<in> set (filter (\<lambda>r. r \<noteq> None) (map (\<lambda>w. find_path n es w u) (successors es v)))"
      by simp
    then have "r \<noteq> None" by simp
    with f False show ?thesis by auto
  qed
qed

lemma path_between_complete:
  assumes "(v, u) \<in> (set es)\<^sup>*"
  shows "path_between es v u \<noteq> None"
proof -
  have "(set es)\<^sup>* = (\<Union>n\<in>{n. n \<le> card (set es)}. set es ^^ n)"
    by (rule rtrancl_finite_eq_relpow) simp
  with assms obtain k where k: "k \<le> card (set es)" "(v, u) \<in> set es ^^ k" by auto
  have "card (set es) \<le> length es" by (rule card_length)
  with k(1) have "k \<le> length es" by simp
  from relpow_find_path [OF k(2) this] show ?thesis by (simp add: path_between_def)
qed

lemma path_between_iff: "path_between es v u \<noteq> None \<longleftrightarrow> (v, u) \<in> (set es)\<^sup>*"
proof
  assume "path_between es v u \<noteq> None"
  then obtain p where "path_between es v u = Some p" by auto
  from path_between_sound [OF this] is_walk_rtrancl [of "set es" p]
  show "(v, u) \<in> (set es)\<^sup>*" by auto
qed (rule path_between_complete)

subsection \<open>The invariant is kept, and errors are genuine\<close>

lemma visit_site_Inr_cases:
  assumes "visit_site T e m u s (g, q) = Inr (g', q')"
  shows "site_literal s \<and>
         (\<exists>v. resolve_module T e (site_text s) = ScriptFile v \<and> path_between (edges g) v u = None \<and>
            ((v \<notin> set (nodes g) \<and> int (length (nodes g)) + 1 \<le> m \<and>
              g' = g\<lparr>nodes := nodes g @ [v], edges := edges g @ [(u, v)]\<rparr> \<and> q' = q @ [v]) \<or>
             (v \<in> set (nodes g) \<and> g' = g\<lparr>edges := edges g @ [(u, v)]\<rparr> \<and> q' = q)))"
  using assms
  by (auto simp: visit_site_def split: if_splits resolved_module.splits option.splits)

lemma require_edgeI:
  "s \<in> set (scan_requires T p) \<Longrightarrow> site_literal s \<Longrightarrow>
   resolve_module T e (site_text s) = ScriptFile q \<Longrightarrow> (p, q) \<in> require_edges T e"
  by (auto simp: require_edges_def)

lemma reachable_step:
  "p \<in> reachable_files T e \<Longrightarrow> (p, q) \<in> require_edges T e \<Longrightarrow> q \<in> reachable_files T e"
  by (auto simp: reachable_files_def intro: rtrancl_into_rtrancl)

lemma site_done_mono:
  "site_done T e g p s \<Longrightarrow> set (nodes g) \<subseteq> set (nodes g') \<Longrightarrow> set (edges g) \<subseteq> set (edges g')
   \<Longrightarrow> site_done T e g' p s"
  by (auto simp: site_done_def)

lemma visit_site_Inr:
  assumes inv: "graph_inv T e m g"
    and u: "u \<in> set (nodes g)"
    and s: "s \<in> set (scan_requires T u)"
    and step: "visit_site T e m u s (g, q) = Inr (g', q')"
  shows "graph_inv T e m g' \<and> set (nodes g) \<subseteq> set (nodes g') \<and> set (edges g) \<subseteq> set (edges g') \<and>
         set q' = set q \<union> (set (nodes g') - set (nodes g)) \<and> site_done T e g' u s"
proof -
  from visit_site_Inr_cases [OF step] obtain v where
    lit: "site_literal s"
    and res: "resolve_module T e (site_text s) = ScriptFile v"
    and nopath: "path_between (edges g) v u = None"
    and cases: "(v \<notin> set (nodes g) \<and> int (length (nodes g)) + 1 \<le> m \<and>
              g' = g\<lparr>nodes := nodes g @ [v], edges := edges g @ [(u, v)]\<rparr> \<and> q' = q @ [v]) \<or>
             (v \<in> set (nodes g) \<and> g' = g\<lparr>edges := edges g @ [(u, v)]\<rparr> \<and> q' = q)"
    by blast
  have edge: "(u, v) \<in> require_edges T e"
    using s lit res by (rule require_edgeI)
  have ureach: "u \<in> reachable_files T e"
    using inv u by (auto simp: graph_inv_def)
  have vreach: "v \<in> reachable_files T e"
    using ureach edge by (rule reachable_step)
  from path_between_None [OF nopath] have vu: "v \<noteq> u" "(v, u) \<notin> set (edges g)"
    by simp_all
  have edges': "edges g' = edges g @ [(u, v)]"
    using cases by auto
  have sym: "\<forall>x y. (x, y) \<in> set (edges g') \<longrightarrow> (y, x) \<notin> set (edges g')"
    using inv vu unfolding edges' graph_inv_def by auto
  have sub: "set (edges g') \<subseteq> require_edges T e"
    using inv edge unfolding edges' graph_inv_def by auto
  from cases show ?thesis
  proof
    assume new: "v \<notin> set (nodes g) \<and> int (length (nodes g)) + 1 \<le> m \<and>
              g' = g\<lparr>nodes := nodes g @ [v], edges := edges g @ [(u, v)]\<rparr> \<and> q' = q @ [v]"
    then have nodes': "nodes g' = nodes g @ [v]" by simp
    have "graph_inv T e m g'"
      unfolding graph_inv_def
      using inv new vreach sym sub unfolding nodes' by (auto simp: graph_inv_def)
    moreover have "site_done T e g' u s"
      using lit res unfolding site_done_def nodes' edges' by auto
    moreover have "set q' = set q \<union> (set (nodes g') - set (nodes g))"
      using new unfolding nodes' by auto
    ultimately show ?thesis unfolding nodes' edges' by auto
  next
    assume old: "v \<in> set (nodes g) \<and> g' = g\<lparr>edges := edges g @ [(u, v)]\<rparr> \<and> q' = q"
    then have nodes': "nodes g' = nodes g" by simp
    have "graph_inv T e m g'"
      unfolding graph_inv_def
      using inv sym sub unfolding nodes' by (auto simp: graph_inv_def)
    moreover have "site_done T e g' u s"
      using lit res old unfolding site_done_def nodes' edges' by auto
    ultimately show ?thesis using old unfolding nodes' edges' by auto
  qed
qed

lemma visit_site_Inl:
  assumes inv: "graph_inv T e m g"
    and u: "u \<in> set (nodes g)"
    and s: "s \<in> set (scan_requires T u)"
    and step: "visit_site T e m u s (g, q) = Inl err"
  shows "genuine_error T e m err"
proof -
  have ureach: "u \<in> reachable_files T e"
    using inv u by (auto simp: graph_inv_def)
  show ?thesis
  proof (cases "site_literal s")
    case False
    with step have "err = DynamicRequireError u (site_line s) (site_text s)"
      by (simp add: visit_site_def)
    with False s ureach show ?thesis by auto
  next
    case lit: True
    show ?thesis
    proof (cases "resolve_module T e (site_text s)")
      case Unresolved
      with lit step have "err = ModuleNotFoundError (site_text s) u"
        by (simp add: visit_site_def)
      with lit s ureach Unresolved show ?thesis by auto
    next
      case (NativeModule p)
      with lit step have "err = CModuleNotSupportedError (site_text s) u"
        by (simp add: visit_site_def)
      with lit s ureach NativeModule show ?thesis by auto
    next
      case (ScriptFile v)
      have edge: "(u, v) \<in> require_edges T e"
        using s lit ScriptFile by (rule require_edgeI)
      have vreach: "v \<in> reachable_files T e"
        using ureach edge by (rule reachable_step)
      show ?thesis
      proof (cases "path_between (edges g) v u")
        case (Some p)
        with lit ScriptFile step have err: "err = CircularDependencyError (p @ [v])"
          by (simp add: visit_site_def)
        from path_between_sound [OF Some] have p: "is_walk (set (edges g)) p" "hd p = v" "last p = u"
          by simp_all
        have "is_walk (require_edges T e) p"
          using p(1) inv by (auto simp: graph_inv_def intro: is_walk_mono)
        then have "is_walk (require_edges T e) (p @ [v])"
          using edge p(3) by (simp add: is_walk_snoc)
        moreover have "p \<noteq> []" using p(1) by (rule is_walk_nonempty)
        ultimately show ?thesis
          using err p vreach by (cases p) auto
      next
        case None
        with lit ScriptFile step have
          new: "v \<notin> set (nodes g)" and over: "m < int (length (nodes g)) + 1"
          and err: "err = DependencyLimitExceededError m (site_text s)"
          by (auto simp: visit_site_def split: if_splits)
        have "distinct (nodes g @ [v])" "set (nodes g @ [v]) \<subseteq> reachable_files T e"
          "m < int (length (nodes g @ [v]))"
          using inv new over vreach by (auto simp: graph_inv_def)
        then have "\<exists>xs. distinct xs \<and> set xs \<subseteq> reachable_files T e \<and> m < int (length xs)"
          by blast
        then show ?thesis unfolding err by simp
      qed
    qed
  qed
qed

lemma visit_sites_Inr:
  assumes "graph_inv T e m g"
    and "u \<in> set (nodes g)"
    and "set ss \<subseteq> set (scan_requires T u)"
    and "visit_sites T e m u ss (g, q) = Inr (g', q')"
    and "set q \<subseteq> set (nodes g)"
    and "closed_except T e g (insert u (set q))"
  shows "graph_inv T e m g' \<and> set (nodes g) \<subseteq> set (nodes g') \<and> set (edges g) \<subseteq> set (edges g') \<and>
         set q' \<subseteq> set (nodes g') \<and> closed_except T e g' (insert u (set q')) \<and>
         (\<forall>s \<in> set ss. site_done T e g' u s)"
  using assms
proof (induction ss arbitrary: g q)
  case Nil
  then show ?case by simp
next
  case (Cons s ss)
  from Cons.prems(4) obtain g1 q1 where
    step: "visit_site T e m u s (g, q) = Inr (g1, q1)"
    and rest: "visit_sites T e m u ss (g1, q1) = Inr (g', q')"
    by (auto split: sum.splits)
  have s: "s \<in> set (scan_requires T u)" using Cons.prems(3) by simp
  from visit_site_Inr [OF Cons.prems(1) Cons.prems(2) s step] have
    one: "graph_inv T e m g1" "set (nodes g) \<subseteq> set (nodes g1)" "set (edges g) \<subseteq> set (edges g1)"
      "set q1 = set q \<union> (set (nodes g1) - set (nodes g))" "site_done T e g1 u s"
    by simp_all
  have u1: "u \<in> set (nodes g1)" using one(2) Cons.prems(2) by auto
  have q1: "set q1 \<subseteq> set (nodes g1)" using one(2,4) Cons.prems(5) by auto
  have closed1: "closed_except T e g1 (insert u (set q1))"
    unfolding closed_except_def
  proof (intro ballI impI)
    fix p s'
    assume p: "p \<in> set (nodes g1)" "p \<notin> insert u (set q1)" and s': "s' \<in> set (scan_requires T p)"
    from p one(4) have "p \<in> set (nodes g)" "p \<notin> insert u (set q)" by auto
    with Cons.prems(6) s' have "site_done T e g p s'" by (auto simp: closed_except_def)
    then show "site_done T e g1 p s'" using one(2,3) by (rule site_done_mono)
  qed
  have ss: "set ss \<subseteq> set (scan_requires T u)" using Cons.prems(3) by simp
  from Cons.IH [OF one(1) u1 ss rest q1 closed1] have
    two: "graph_inv T e m g'" "set (nodes g1) \<subseteq> set (nodes g')" "set (edges g1) \<subseteq> set (edges g')"
      "set q' \<subseteq> set (nodes g')" "closed_except T e g' (insert u (set q'))"
      "\<forall>s \<in> set ss. site_done T e g' u s"
    by simp_all
  have "site_done T e g' u s" using one(5) two(2,3) by (rule site_done_mono)
  with one two show ?case by auto
qed

lemma visit_sites_Inl:
  assumes "graph_inv T e m g"
    and "u \<in> set (nodes g)"
    and "set ss \<subseteq> set (scan_requires T u)"
    and "visit_sites T e m u ss (g, q) = Inl err"
  shows "genuine_error T e m err"
  using assms
proof (induction ss arbitrary: g q)
  case Nil
  then show ?case by simp
next
  case (Cons s ss)
  have s: "s \<in> set (scan_requires T u)" using Cons.prems(3) by simp
  show ?case
  proof (cases "visit_site T e m u s (g, q)")
    case (Inl err')
    with Cons.prems(4) have "err' = err" by simp
    with visit_site_Inl [OF Cons.prems(1) Cons.prems(2) s Inl] show ?thesis by simp
  next
    case (Inr st)
    obtain g1 q1 where st: "st = (g1, q1)" by (cases st)
    from visit_site_Inr [OF Cons.prems(1) Cons.prems(2) s Inr [unfolded st]] have
      one: "graph_inv T e m g1" "set (nodes g) \<subseteq> set (nodes g1)" by simp_all
    have rest: "visit_sites T e m u ss (g1, q1) = Inl err"
      using Cons.prems(4) Inr st by simp
    have u1: "u \<in> set (nodes g1)" using one(2) Cons.prems(2) by auto
    have ss: "set ss \<subseteq> set (scan_requires T u)" using Cons.prems(3) by simp
    from Cons.IH [OF one(1) u1 ss rest] show ?thesis .
  qed
qed

lemma traversal_step:
  assumes inv: "traversal_inv T e m g (u # queue)"
    and step: "visit_sites T e m u (scan_requires T u) (g, queue) = Inr (g', queue')"
  shows "traversal_inv T e m g' queue'"
proof -
  from inv have g: "graph_inv T e m g" and u: "u \<in> set (nodes g)"
    and q: "set queue \<subseteq> set (nodes g)" and c: "closed_except T e g (insert u (set queue))"
    by (auto simp: traversal_inv_def)
  from visit_sites_Inr [OF g u subset_refl step q c] have
    r: "graph_inv T e m g'" "set queue' \<subseteq> set (nodes g')"
      "closed_except T e g' (insert u (set queue'))"
      "\<forall>s \<in> set (scan_requires T u). site_done T e g' u s"
    by simp_all
  have "closed_except T e g' (set queue')"
    unfolding closed_except_def
  proof (intro ballI impI)
    fix p s
    assume p: "p \<in> set (nodes g')" "p \<notin> set queue'" and s: "s \<in> set (scan_requires T p)"
    show "site_done T e g' p s"
    proof (cases "p = u")
      case True
      with r(4) s show ?thesis by simp
    next
      case False
      with p s r(3) show ?thesis by (auto simp: closed_except_def)
    qed
  qed
  with r show ?thesis by (simp add: traversal_inv_def)
qed

lemma traverse_Inr:
  "traversal_inv T e m g queue \<Longrightarrow> traverse T e m g queue = Inr g' \<Longrightarrow> traversal_inv T e m g' []"
proof (induction T e m g queue rule: traverse.induct)
  case (1 T e maxNodes g)
  then show ?case by simp
next
  case (2 T e maxNodes g u queue)
  from "2.prems"(2) obtain g1 q1 where
    step: "visit_sites T e maxNodes u (scan_requires T u) (g, queue) = Inr (g1, q1)"
    and rest: "traverse T e maxNodes g1 q1 = Inr g'"
    by (auto split: sum.splits)
  from traversal_step [OF "2.prems"(1) step] have "traversal_inv T e maxNodes g1 q1" .
  from "2.IH" [OF step refl this rest] show ?case .
qed

lemma traverse_Inl:
  "traversal_inv T e m g queue \<Longrightarrow> traverse T e m g queue = Inl err \<Longrightarrow> genuine_error T e m err"
proof (induction T e m g queue rule: traverse.induct)
  case (1 T e maxNodes g)
  then show ?case by simp
next
  case (2 T e maxNodes g u queue)
  from "2.prems"(1) have g: "graph_inv T e maxNodes g" and u: "u \<in> set (nodes g)"
    by (auto simp: traversal_inv_def)
  show ?case
  proof (cases "visit_sites T e maxNodes u (scan_requires T u) (g, queue)")
    case (Inl err')
    with "2.prems"(2) have "err' = err" by simp
    with visit_sites_Inl [OF g u subset_refl Inl] show ?thesis by simp
  next
    case (Inr st)
    obtain g1 q1 where st: "st = (g1, q1)" by (cases st)
    have step: "visit_sites T e maxNodes u (scan_requires T u) (g, queue) = Inr (g1, q1)"
      using Inr st by simp
    have rest: "traverse T e maxNodes g1 q1 = Inl err"
      using "2.prems"(2) step by simp
    from traversal_step [OF "2.prems"(1) step] have "traversal_inv T e maxNodes g1 q1" .
    from "2.IH" [OF step refl this rest] show ?thesis .
  qed
qed

subsection \<open>The result of the analysis\<close>

lemma initial_inv:
  assumes "1 \<le> m"
  shows "traversal_inv T e m \<lparr>nodes = [e], edges = []\<rparr> [e]"
  using assms
  by (simp add: traversal_inv_def graph_inv_def closed_except_def reachable_files_def)

lemma closed_nodes_reachable:
  assumes inv: "traversal_inv T e m g []"
  shows "set (nodes g) = reachable_files T e"
proof
  show "set (nodes g) \<subseteq> reachable_files T e"
    using inv by (simp add: traversal_inv_def graph_inv_def)
  show "reachable_files T e \<subseteq> set (nodes g)"
  proof
    fix q
    assume "q \<in> reachable_files T e"
    then have "(e, q) \<in> (require_edges T e)\<^sup>*" by (simp add: reachable_files_def)
    then show "q \<in> set (nodes g)"
    proof (induction rule: rtrancl_induct)
      case base
      then show ?case using inv by (simp add: traversal_inv_def graph_inv_def)
    next
      case (step p q)
      from step.hyps(2) obtain s where
        s: "s \<in> set (scan_requires T p)" "resolve_module T e (site_text s) = ScriptFile q"
        by (auto simp: require_edges_def)
      from inv step.IH s(1) have "site_done T e g p s"
        by (simp add: traversal_inv_def closed_except_def)
      with s(2) show ?case by (auto simp: site_done_def)
    qed
  qed
qed

lemma closed_edges:
  assumes inv: "traversal_inv T e m g []"
    and "p \<in> reachable_files T e" and "(p, q) \<in> require_edges T e"
  shows "(p, q) \<in> set (edges g)"
proof -
  from assms(3) obtain s where
    s: "s \<in> set (scan_requires T p)" "resolve_module T e (site_text s) = ScriptFile q"
    by (auto simp: require_edges_def)
  have "p \<in> set (nodes g)" using closed_nodes_reachable [OF inv] assms(2) by simp
  with inv s(1) have "site_done T e g p s"
    by (simp add: traversal_inv_def closed_except_def)
  with s(2) show ?thesis by (auto simp: site_done_def)
qed

lemma dependency_graph_build_Inr:
  assumes "dependency_graph_build T entry m = Inr deps"
  shows "\<exists>e. canonical_path T entry = Some e \<and> distinct deps \<and>
             set deps = reachable_files T e - {e} \<and> int (length deps) + 1 \<le> m \<and>
             sites_resolved T e \<and>
             (\<forall>p q. p \<in> reachable_files T e \<and> (p, q) \<in> require_edges T e
                \<longrightarrow> (q, p) \<notin> require_edges T e)"
proof -
  from assms obtain e g where e: "canonical_path T entry = Some e" and m: "1 \<le> m"
    and tr: "traverse T e m \<lparr>nodes = [e], edges = []\<rparr> [e] = Inr g"
    and deps: "deps = filter (\<lambda>p. p \<noteq> e) (nodes g)"
    by (auto simp: dependency_graph_build_def simp del: traverse.simps
          split: option.splits if_splits sum.splits)
  from traverse_Inr [OF initial_inv [OF m] tr] have inv: "traversal_inv T e m g []" .
  note reach = closed_nodes_reachable [OF inv]
  from inv have g: "distinct (nodes g)" "e \<in> set (nodes g)" "int (length (nodes g)) \<le> m"
    and sym: "\<forall>x y. (x, y) \<in> set (edges g) \<longrightarrow> (y, x) \<notin> set (edges g)"
    by (simp_all add: traversal_inv_def graph_inv_def)
  have "distinct deps" using g(1) deps by simp
  moreover have "set deps = reachable_files T e - {e}" using reach deps by auto
  moreover have "length deps + 1 = length (nodes g)"
  proof -
    have "{x. x \<noteq> e} \<inter> set (nodes g) = set (nodes g) - {e}" by auto
    with distinct_length_filter [OF g(1), of "\<lambda>p. p \<noteq> e"] deps
    have "length deps = card (set (nodes g) - {e})" by simp
    also have "\<dots> = card (set (nodes g)) - 1" using g(2) by simp
    also have "\<dots> = length (nodes g) - 1" using g(1) by (simp add: distinct_card)
    finally show ?thesis using g(2) by (cases "nodes g") auto
  qed
  moreover have "sites_resolved T e"
    unfolding sites_resolved_def
  proof (intro ballI)
    fix p s
    assume "p \<in> reachable_files T e" "s \<in> set (scan_requires T p)"
    with inv reach have "site_done T e g p s"
      by (simp add: traversal_inv_def closed_except_def)
    then show "site_literal s \<and> (\<exists>q. resolve_module T e (site_text s) = ScriptFile q)"
      by (auto simp: site_done_def)
  qed
  moreover have "\<forall>p q. p \<in> reachable_files T e \<and> (p, q) \<in> require_edges T e
                \<longrightarrow> (q, p) \<notin> require_edges T e"
  proof (intro allI impI notI)
    fix p q
    assume pq: "p \<in> reachable_files T e \<and> (p, q) \<in> require_edges T e"
      and qp: "(q, p) \<in> require_edges T e"
    from pq have "q \<in> reachable_files T e" by (auto intro: reachable_step)
    from closed_edges [OF inv this qp] closed_edges [OF inv conjunct1 [OF pq] conjunct2 [OF pq]] sym
    show False by blast
  qed
  ultimately show ?thesis using e g(3) by auto
qed

lemma dependency_graph_build_Inl:
  assumes "dependency_graph_build T entry m = Inl err"
  shows "(canonical_path T entry = None \<and> err = ScriptNotFoundError entry) \<or>
         (\<exists>e. canonical_path T entry = Some e \<and> genuine_error T e m err)"
proof (cases "canonical_path T entry")
  case None
  with assms show ?thesis by (simp add: dependency_graph_build_def)
next
  case (Some e)
  show ?thesis
  proof (cases "1 \<le> m")
    case False
    with assms Some have err: "err = DependencyLimitExceededError m entry"
      by (simp add: dependency_graph_build_def)
    have "distinct [e] \<and> set [e] \<subseteq> reachable_files T e \<and> m < int (length [e])"
      using False by (simp add: reachable_files_def)
    then have "\<exists>xs. distinct xs \<and> set xs \<subseteq> reachable_files T e \<and> m < int (length xs)"
      by blast
    with Some err show ?thesis by simp
  next
    case True
    with assms Some have "traverse T e m \<lparr>nodes = [e], edges = []\<rparr> [e] = Inl err"
      by (simp add: dependency_graph_build_def del: traverse.simps split: sum.splits)
    from traverse_Inl [OF initial_inv [OF True] this] Some show ?thesis by simp
  qed
qed

lemma genuine_error_well_formed:
  assumes gen: "genuine_error T e m err"
    and sites: "sites_resolved T e"
    and acyc: "acyclic_requires T e"
  shows "\<exists>name. err = DependencyLimitExceededError m name"
proof (cases err)
  case (DynamicRequireError u l t)
  with gen sites show ?thesis by (auto simp: sites_resolved_def)
next
  case (ModuleNotFoundError n u)
  with gen sites show ?thesis by (fastforce simp: sites_resolved_def)
next
  case (CModuleNotSupportedError n u)
  with gen sites show ?thesis by (fastforce simp: sites_resolved_def)
next
  case (CircularDependencyError c)
  from gen have c: "is_walk (require_edges T e) c \<and> 2 \<le> length c \<and> hd c = last c \<and>
      hd c \<in> reachable_files T e"
    unfolding CircularDependencyError genuine_error.simps .
  then have "is_walk (require_edges T e) c" "2 \<le> length c" "hd c = last c"
    "hd c \<in> reachable_files T e"
    by blast+
  from is_walk_trancl [OF this(1,2)] this(3) have "(hd c, hd c) \<in> (require_edges T e)\<^sup>+"
    by simp
  with \<open>hd c \<in> reachable_files T e\<close> acyc show ?thesis
    unfolding acyclic_requires_def by blast
next
  case (DependencyLimitExceededError n name)
  with gen show ?thesis by simp
qed (use gen in simp_all)

lemma genuine_limit_card:
  assumes "genuine_error T e m (DependencyLimitExceededError n name)"
    and "finite (reachable_files T e)"
  shows "m < int (card (reachable_files T e))"
proof -
  from assms(1) obtain xs where
    xs: "distinct xs" "set xs \<subseteq> reachable_files T e" "m < int (length xs)"
    by auto
  have "length xs = card (set xs)" using xs(1) by (simp add: distinct_card)
  also have "\<dots> \<le> card (reachable_files T e)" using xs(2) assms(2) by (rule card_mono [rotated])
  finally show ?thesis using xs(3) by simp
qed




lemma card_reachable:
  assumes "finite (reachable_files T e)"
  shows "card (reachable_files T e) = card (reachable_files T e - {e}) + 1"
proof -
  have "e \<in> reachable_files T e" by (simp add: reachable_files_def)
  from card_Suc_Diff1 [OF assms this] show ?thesis by simp
qed

lemma analyze_no_requires:
  assumes "canonical_path T entry = Some e" and "1 \<le> bound_of max_deps"
    and "scan_requires T e = []"
  shows "analyze T entry max_deps = Inr []"
  using assms by (simp add: analyze_def dependency_graph_build_def)

lemma analyze_well_formed:
  assumes entry: "canonical_path T entry = Some e"
    and sites: "sites_resolved T e"
    and acyc: "acyclic_requires T e"
    and fin: "finite (reachable_files T e)"
  shows "(int (card (reachable_files T e)) \<le> bound_of max_deps \<longrightarrow>
            (\<exists>deps. analyze T entry max_deps = Inr deps \<and> distinct deps \<and>
               set deps = reachable_files T e - {e} \<and>
               length deps = card (reachable_files T e - {e}))) \<and>
         (bound_of max_deps < int (card (reachable_files T e)) \<longrightarrow>
            (\<exists>name. analyze T entry max_deps
               = Inl (DependencyLimitExceededError (bound_of max_deps) name)))"
proof (cases "dependency_graph_build T entry (bound_of max_deps)")
  case (Inl err)
  from dependency_graph_build_Inl [OF Inl] entry
  have gen: "genuine_error T e (bound_of max_deps) err" by auto
  from genuine_error_well_formed [OF gen sites acyc] obtain name where
    err: "err = DependencyLimitExceededError (bound_of max_deps) name" by blast
  from genuine_limit_card [OF gen [unfolded err] fin]
  have "bound_of max_deps < int (card (reachable_files T e))" .
  with Inl err show ?thesis by (auto simp: analyze_def)
next
  case (Inr deps)
  from dependency_graph_build_Inr [OF Inr] entry have
    d: "distinct deps" "set deps = reachable_files T e - {e}"
      "int (length deps) + 1 \<le> bound_of max_deps"
    by auto
  have len: "length deps = card (reachable_files T e - {e})"
    using d(1,2) distinct_card [of deps] by simp
  have "card (reachable_files T e) = length deps + 1"
    using len card_reachable [OF fin] by simp
  with d Inr len show ?thesis by (auto simp: analyze_def)
qed

subsection \<open>The order of the traversal\<close>















subsection \<open>The example projects\<close>

lemma reachable_subset:
  assumes "e \<in> S" and "\<And>p q. p \<in> S \<Longrightarrow> (p, q) \<in> require_edges T e \<Longrightarrow> q \<in> S"
  shows "reachable_files T e \<subseteq> S"
proof
  fix q
  assume "q \<in> reachable_files T e"
  then have "(e, q) \<in> (require_edges T e)\<^sup>*" by (simp add: reachable_files_def)
  then show "q \<in> S"
    by (induction rule: rtrancl_induct) (use assms in auto)
qed

lemma walk_reachable:
  assumes "is_walk (require_edges T e) (e # ps)"
  shows "last (e # ps) \<in> reachable_files T e"
  using is_walk_rtrancl [OF assms] by (simp add: reachable_files_def)

lemma acyclic_by_rank:
  fixes f :: "path \<Rightarrow> nat"
  assumes "\<And>p q. (p, q) \<in> require_edges T e \<Longrightarrow> f q < f p"
  shows "acyclic_requires T e"
proof -
  have "f q < f p" if "(p, q) \<in> (require_edges T e)\<^sup>+" for p q
    using that by (induction rule: trancl_induct) (auto dest: assms)
  then show ?thesis by (force simp: acyclic_requires_def)
qed

lemma require_edges_iff:
  "(p, q) \<in> require_edges T e \<longleftrightarrow>
     list_ex (\<lambda>s. site_literal s \<and> resolve_module T e (site_text s) = ScriptFile q) (scan_requires T p)"
  by (auto simp: require_edges_def list_ex_iff)

lemma diamond_scan:
  "scan_requires diamond_project p =
     (if p = ''/p/main.lua'' then [literal_site ''a'' 1, literal_site ''b'' 2]
      else if p = ''/p/a.lua'' then [literal_site ''c'' 1]
      else if p = ''/p/b.lua'' then [literal_site ''c'' 1]
      else [])"
  by (simp add: diamond_project_def project_def)

lemma diamond_resolve:
  "resolve_module diamond_project e n =
     (if n = ''main'' \<or> n = ''a'' \<or> n = ''b'' \<or> n = ''c'' then ScriptFile (''/p/'' @ n @ ''.lua'')
      else if n = ''lfs'' then NativeModule ''/p/lfs.so'' else Unresolved)"
  by (simp add: diamond_project_def project_def)

lemma diamond_entry: "canonical_path diamond_project ''main.lua'' = Some ''/p/main.lua''"
  by (simp add: diamond_project_def project_def)

lemma diamond_edge_iff:
  "(p, q) \<in> require_edges diamond_project ''/p/main.lua'' \<longleftrightarrow>
     (p = ''/p/main.lua'' \<and> (q = ''/p/a.lua'' \<or> q = ''/p/b.lua'')) \<or>
     ((p = ''/p/a.lua'' \<or> p = ''/p/b.lua'') \<and> q = ''/p/c.lua'')"
  by (simp add: require_edges_iff diamond_scan diamond_resolve literal_site_def) blast

lemma diamond_reachable:
  "reachable_files diamond_project ''/p/main.lua'' =
     {''/p/main.lua'', ''/p/a.lua'', ''/p/b.lua'', ''/p/c.lua''}"
proof
  show "reachable_files diamond_project ''/p/main.lua''
      \<subseteq> {''/p/main.lua'', ''/p/a.lua'', ''/p/b.lua'', ''/p/c.lua''}"
  proof (rule reachable_subset)
    fix p q
    assume "p \<in> {''/p/main.lua'', ''/p/a.lua'', ''/p/b.lua'', ''/p/c.lua''}"
      and "(p, q) \<in> require_edges diamond_project ''/p/main.lua''"
    then show "q \<in> {''/p/main.lua'', ''/p/a.lua'', ''/p/b.lua'', ''/p/c.lua''}"
      unfolding diamond_edge_iff by blast
  qed simp
  have "last [''/p/main.lua''] \<in> reachable_files diamond_project ''/p/main.lua''"
    "last [''/p/main.lua'', ''/p/a.lua''] \<in> reachable_files diamond_project ''/p/main.lua''"
    "last [''/p/main.lua'', ''/p/b.lua''] \<in> reachable_files diamond_project ''/p/main.lua''"
    "last [''/p/main.lua'', ''/p/a.lua'', ''/p/c.lua''] \<in> reachable_files diamond_project ''/p/main.lua''"
    by (rule walk_reachable, simp add: diamond_edge_iff)+
  then show "{''/p/main.lua'', ''/p/a.lua'', ''/p/b.lua'', ''/p/c.lua''}
      \<subseteq> reachable_files diamond_project ''/p/main.lua''"
    by simp
qed

lemma diamond_sites: "sites_resolved diamond_project ''/p/main.lua''"
  unfolding sites_resolved_def diamond_reachable
  by (simp add: diamond_scan diamond_resolve literal_site_def)

lemma diamond_acyclic: "acyclic_requires diamond_project ''/p/main.lua''"
proof (rule acyclic_by_rank)
  fix p q
  assume "(p, q) \<in> require_edges diamond_project ''/p/main.lua''"
  then show "(if q = ''/p/main.lua'' then 2 else if q = ''/p/c.lua'' then 0 else (1::nat))
           < (if p = ''/p/main.lua'' then 2 else if p = ''/p/c.lua'' then 0 else 1)"
    unfolding diamond_edge_iff by auto
qed

lemma diamond_card: "card (reachable_files diamond_project ''/p/main.lua'' - {''/p/main.lua''}) = 3"
  by (simp add: diamond_reachable)





















subsection \<open>The claims\<close>

text \<open>
  C2, as the model has it. For every entry file with no requires, \<^verbatim>\<open>analyze\<close> returns the
  empty list, for every bound of at least 1. For every entry file whose transitive require
  graph is acyclic and reaches N script files besides the entry (every require a literal
  that resolves to a script), and whose N + 1 nodes are within the bound, \<^verbatim>\<open>analyze\<close>
  returns exactly those N paths, each exactly once, however many files require the same
  module.
\<close>

theorem analyze_acyclic_graph:
  assumes "canonical_path T entry = Some e"
  shows "(scan_requires T e = [] \<and> 1 \<le> bound_of max_deps \<longrightarrow> analyze T entry max_deps = Inr []) \<and>
         (sites_resolved T e \<and> acyclic_requires T e \<and> finite (reachable_files T e) \<and>
          int (card (reachable_files T e - {e})) + 1 \<le> bound_of max_deps \<longrightarrow>
            (\<exists>deps. analyze T entry max_deps = Inr deps \<and> distinct deps \<and>
               set deps = reachable_files T e - {e} \<and>
               length deps = card (reachable_files T e - {e})))"
proof (intro conjI impI)
  assume "scan_requires T e = [] \<and> 1 \<le> bound_of max_deps"
  with assms show "analyze T entry max_deps = Inr []"
    by (simp add: analyze_no_requires)
next
  assume wf: "sites_resolved T e \<and> acyclic_requires T e \<and> finite (reachable_files T e) \<and>
          int (card (reachable_files T e - {e})) + 1 \<le> bound_of max_deps"
  from wf have "card (reachable_files T e) = card (reachable_files T e - {e}) + 1"
    by (simp only: card_reachable)
  with wf have "int (card (reachable_files T e)) \<le> bound_of max_deps" by simp
  with analyze_well_formed [OF assms, of max_deps] wf
  show "\<exists>deps. analyze T entry max_deps = Inr deps \<and> distinct deps \<and>
               set deps = reachable_files T e - {e} \<and>
               length deps = card (reachable_files T e - {e})"
    by blast
qed

theorem analyze_acyclic_graph_witness:
  "canonical_path diamond_project ''main.lua'' = Some ''/p/main.lua'' \<and>
   sites_resolved diamond_project ''/p/main.lua'' \<and>
   acyclic_requires diamond_project ''/p/main.lua'' \<and>
   finite (reachable_files diamond_project ''/p/main.lua'') \<and>
   int (card (reachable_files diamond_project ''/p/main.lua'' - {''/p/main.lua''})) + 1
     \<le> bound_of None \<and>
   (\<exists>deps. analyze diamond_project ''main.lua'' None = Inr deps \<and> distinct deps \<and>
      set deps = {''/p/a.lua'', ''/p/b.lua'', ''/p/c.lua''} \<and> length deps = 3)"
proof -
  have fin: "finite (reachable_files diamond_project ''/p/main.lua'')"
    by (simp add: diamond_reachable)
  have bound: "int (card (reachable_files diamond_project ''/p/main.lua'' - {''/p/main.lua''})) + 1
      \<le> bound_of None"
    by (simp add: diamond_card default_max_deps_def)
  have rest: "reachable_files diamond_project ''/p/main.lua'' - {''/p/main.lua''}
      = {''/p/a.lua'', ''/p/b.lua'', ''/p/c.lua''}"
    by (auto simp: diamond_reachable)
  from analyze_acyclic_graph [OF diamond_entry, of None] diamond_sites diamond_acyclic fin bound
  have "\<exists>deps. analyze diamond_project ''main.lua'' None = Inr deps \<and> distinct deps \<and>
      set deps = reachable_files diamond_project ''/p/main.lua'' - {''/p/main.lua''} \<and>
      length deps = card (reachable_files diamond_project ''/p/main.lua'' - {''/p/main.lua''})"
    by blast
  then have "\<exists>deps. analyze diamond_project ''main.lua'' None = Inr deps \<and> distinct deps \<and>
      set deps = {''/p/a.lua'', ''/p/b.lua'', ''/p/c.lua''} \<and> length deps = 3"
    unfolding diamond_card unfolding rest .
  with diamond_entry diamond_sites diamond_acyclic fin bound show ?thesis by blast
qed

text \<open>
  The claim as the specification words it has no bound. The diamond is acyclic and reaches
  three script files, and with a bound of 2 its analysis fails.
\<close>

theorem analyze_acyclic_graph_counterexample:
  "sites_resolved diamond_project ''/p/main.lua'' \<and>
   acyclic_requires diamond_project ''/p/main.lua'' \<and>
   card (reachable_files diamond_project ''/p/main.lua'' - {''/p/main.lua''}) = 3 \<and>
   analyze diamond_project ''main.lua'' (Some 2) = Inl (DependencyLimitExceededError 2 ''b'')"
proof -
  have "analyze diamond_project ''main.lua'' (Some 2) = Inl (DependencyLimitExceededError 2 ''b'')"
    by (simp add: analyze_def dependency_graph_build_def diamond_entry diamond_scan
        diamond_resolve literal_site_def visit_site_def path_between_def successors_def)
  then show ?thesis
    using diamond_sites diamond_acyclic diamond_card by simp
qed










end
